theory Spec2Isabelle
  imports Complex_Main
begin

section \<open>The rate limiter of dev/install/sct\_changelog.py\<close>

text \<open>
  The script wraps \<^verbatim>\<open>requests.get\<close> in a \<^verbatim>\<open>RateLimiter\<close>: an object holding a quota
  \<^verbatim>\<open>_count\<close>, a window length \<^verbatim>\<open>_period\<close>, a deque \<^verbatim>\<open>_requests\<close> of timestamps and
  the wrapped callable \<^verbatim>\<open>_get\<close>. Its method \<^verbatim>\<open>get\<close> reads the clock, may sleep, and
  calls the wrapped operation.

  The object is a record, the deque a list with the oldest record at the head
  (\<^verbatim>\<open>append\<close> adds at the back, \<^verbatim>\<open>popleft\<close> removes the head). Python's \<^verbatim>\<open>int\<close> is
  \<open>int\<close>; time is \<open>real\<close>. Leading underscores of the field names are dropped, and
  the field \<^verbatim>\<open>_get\<close> is \<open>wrapped\<close>, \<open>get\<close> being the method.
\<close>

subsection \<open>The environment: clock, sleep, logging, the wrapped operation\<close>

text \<open>
  A log record keeps what \<^verbatim>\<open>logging.info(msg, *args)\<close> is given: the level, the
  message template and the arguments (Python's logging formats them later).
\<close>

record log_record =
  levelname :: string
  msg :: string
  args :: "real list"

text \<open>
  The world outside the limiter: the time \<^verbatim>\<open>time.time()\<close> returns, the arguments
  \<^verbatim>\<open>time.sleep\<close> was called with, the log records emitted, and the invocations of
  the wrapped operation, each with the time at which it happened. The clock is the
  deterministic one of a test harness: it moves only when somebody sleeps.
\<close>

record 'a world =
  clock :: real
  sleeps :: "real list"
  log :: "log_record list"
  calls :: "(real \<times> 'a) list"

definition time_time :: "'a world \<Rightarrow> real" where
  "time_time w = clock w"

definition time_sleep :: "real \<Rightarrow> 'a world \<Rightarrow> 'a world" where
  "time_sleep dt w = w\<lparr>clock := clock w + dt, sleeps := sleeps w @ [dt]\<rparr>"

definition logging_info :: "string \<Rightarrow> real list \<Rightarrow> 'a world \<Rightarrow> 'a world" where
  "logging_info m as w =
     w\<lparr>log := log w @ [\<lparr>levelname = ''INFO'', msg = m, args = as\<rparr>]\<rparr>"

text \<open>Invoking the wrapped operation leaves a trace: when, and with which arguments.\<close>

definition invoke :: "'a \<Rightarrow> 'a world \<Rightarrow> 'a world" where
  "invoke a w = w\<lparr>calls := calls w @ [(clock w, a)]\<rparr>"

subsection \<open>The class RateLimiter\<close>

text \<open>
  The wrapped operation returns a value (\<open>Inr\<close>) or raises (\<open>Inl\<close>). The only
  exception the limiter itself can raise is the \<^verbatim>\<open>IndexError\<close> of \<^verbatim>\<open>popleft\<close> on an
  empty deque; the result of \<^verbatim>\<open>get\<close> keeps the two apart: \<open>Inl IndexError\<close> is the
  limiter's own failure, \<open>Inr x\<close> is whatever the wrapped operation did.
\<close>

datatype limiter_error = IndexError

record ('a, 'e, 'b) RateLimiter =
  count :: int
  period :: real
  requests :: "real list"
  wrapped :: "'a \<Rightarrow> 'e + 'b"

definition init :: "('a \<Rightarrow> 'e + 'b) \<Rightarrow> int \<Rightarrow> real \<Rightarrow> ('a, 'e, 'b) RateLimiter" where
  "init g c p = \<lparr>count = c, period = p, requests = [], wrapped = g\<rparr>"

definition wait_message :: string where
  "wait_message = ''Waiting %.3fs so as to not go over the API rate limit''"

definition get ::
  "'a \<Rightarrow> ('a, 'e, 'b) RateLimiter \<times> 'a world \<Rightarrow>
     (limiter_error + ('e + 'b)) \<times> ('a, 'e, 'b) RateLimiter \<times> 'a world" where
  "get a st =
     (case st of (self, w) \<Rightarrow>
        if int (length (requests self)) < count self then
          (Inr (wrapped self a),
           self\<lparr>requests := requests self @ [time_time w]\<rparr>,
           invoke a w)
        else
          let now = time_time w in
          (case requests self of
             [] \<Rightarrow> (Inl IndexError, self, w)
           | r # rest \<Rightarrow>
               let w1 = (if now < r + period self
                         then (let dt = r + period self - now
                               in time_sleep dt (logging_info wait_message [dt] w))
                         else w)
               in (Inr (wrapped self a),
                   self\<lparr>requests := rest @ [time_time w1]\<rparr>,
                   invoke a w1)))"

subsection \<open>A client issuing a sequence of calls\<close>

text \<open>
  A timed call is a caller-side delay and the arguments: the caller lets \<open>d\<close> seconds
  pass, then calls \<^verbatim>\<open>get\<close>. What is observed of the call is its outcome, the time at which
  it arrived, and the delay the limiter imposed (the time that passed inside \<^verbatim>\<open>get\<close>).
  An exception does not stop the client: the limiter's state after the call is what the
  next call sees, as it is for a caller that catches the exception.
\<close>

definition elapse :: "real \<Rightarrow> 'a world \<Rightarrow> 'a world" where
  "elapse d w = w\<lparr>clock := clock w + d\<rparr>"

definition issue ::
  "real \<times> 'a \<Rightarrow> ('a, 'e, 'b) RateLimiter \<times> 'a world \<Rightarrow>
     ((limiter_error + ('e + 'b)) \<times> real \<times> real) \<times> ('a, 'e, 'b) RateLimiter \<times> 'a world" where
  "issue ev st =
     (case ev of (d, a) \<Rightarrow> case st of (self, w) \<Rightarrow>
        let w0 = elapse d w in
        (case get a (self, w0) of (res, self', w') \<Rightarrow>
           ((res, clock w0, clock w' - clock w0), self', w')))"

fun issue_all ::
  "(real \<times> 'a) list \<Rightarrow> ('a, 'e, 'b) RateLimiter \<times> 'a world \<Rightarrow>
     ((limiter_error + ('e + 'b)) \<times> real \<times> real) list \<times> ('a, 'e, 'b) RateLimiter \<times> 'a world" where
  "issue_all [] st = ([], st)"
| "issue_all (ev # evs) st =
     (case issue ev st of (ob, st') \<Rightarrow>
        case issue_all evs st' of (obs, st'') \<Rightarrow> (ob # obs, st''))"

definition world0 :: "real \<Rightarrow> 'a world" where
  "world0 t0 = \<lparr>clock = t0, sleeps = [], log = [], calls = []\<rparr>"

text \<open>The state reached, and the observations made, from a fresh limiter.\<close>

definition start :: "('a \<Rightarrow> 'e + 'b) \<Rightarrow> int \<Rightarrow> real \<Rightarrow> real \<Rightarrow> ('a, 'e, 'b) RateLimiter \<times> 'a world" where
  "start g c p t0 = (init g c p, world0 t0)"

definition admitted :: "'a world \<Rightarrow> real list" where
  "admitted w = map fst (calls w)"

subsection \<open>What a run leaves behind\<close>

definition observations ::
  "(real \<times> 'a) list \<Rightarrow> ('a, 'e, 'b) RateLimiter \<times> 'a world \<Rightarrow>
     ((limiter_error + ('e + 'b)) \<times> real \<times> real) list" where
  "observations evs st = fst (issue_all evs st)"

definition limiter_after ::
  "(real \<times> 'a) list \<Rightarrow> ('a, 'e, 'b) RateLimiter \<times> 'a world \<Rightarrow> ('a, 'e, 'b) RateLimiter" where
  "limiter_after evs st = fst (snd (issue_all evs st))"

definition world_after ::
  "(real \<times> 'a) list \<Rightarrow> ('a, 'e, 'b) RateLimiter \<times> 'a world \<Rightarrow> 'a world" where
  "world_after evs st = snd (snd (issue_all evs st))"

subsection \<open>Invariants of the tracker\<close>

text \<open>
  \<open>spaced c p ts\<close>: in the list of admission times, the entry \<open>c\<close> places after an entry
  is at least \<open>p\<close> later. \<open>tracking\<close>: the deque holds the last \<open>count\<close> admission times,
  in the order of admission, the admission times are spaced, and a limiter with a
  non-positive quota has admitted nothing.
\<close>

definition spaced :: "nat \<Rightarrow> real \<Rightarrow> real list \<Rightarrow> bool" where
  "spaced c p ts = (\<forall>i<length ts. c \<le> i \<longrightarrow> ts ! (i - c) + p \<le> ts ! i)"

definition tracking :: "('a, 'e, 'b) RateLimiter \<times> 'a world \<Rightarrow> bool" where
  "tracking st =
     (case st of (self, w) \<Rightarrow>
        requests self = drop (length (admitted w) - nat (count self)) (admitted w) \<and>
        spaced (nat (count self)) (period self) (admitted w) \<and>
        (count self \<le> 0 \<longrightarrow> admitted w = []))"

subsection \<open>The log line as the specification words it\<close>

text \<open>
  The specification gives the log line of an imposed delay the form
  \<^verbatim>\<open>waiting <seconds> so as not to exceed the rate limit.\<close>: these words before and
  after the number of seconds. \<open>spec_log_form\<close> is that form, whatever text stands for
  the seconds; it is compared below with the message the source passes to
  \<^verbatim>\<open>logging.info\<close>, whose fixed words formatting leaves as they are.
\<close>

definition spec_log_prefix :: string where
  "spec_log_prefix = ''waiting ''"

definition spec_log_suffix :: string where
  "spec_log_suffix = '' so as not to exceed the rate limit.''"

definition spec_log_form :: "string \<Rightarrow> bool" where
  "spec_log_form line =
     (length spec_log_prefix + length spec_log_suffix \<le> length line \<and>
      take (length spec_log_prefix) line = spec_log_prefix \<and>
      drop (length line - length spec_log_suffix) line = spec_log_suffix)"

section \<open>Properties\<close>

subsection \<open>One call, path by path\<close>

lemma get_fast:
  assumes "int (length (requests self)) < count self"
  shows "get a (self, w) =
    (Inr (wrapped self a), self\<lparr>requests := requests self @ [clock w]\<rparr>,
     w\<lparr>calls := calls w @ [(clock w, a)]\<rparr>)"
  using assms by (simp add: get_def time_time_def invoke_def)

lemma get_empty:
  assumes "\<not> int (length (requests self)) < count self" "requests self = []"
  shows "get a (self, w) = (Inl IndexError, self, w)"
  using assms by (simp add: get_def)

lemma get_wait:
  assumes "\<not> int (length (requests self)) < count self" "requests self = r # rest"
    "clock w < r + period self"
  shows "get a (self, w) =
    (Inr (wrapped self a), self\<lparr>requests := rest @ [r + period self]\<rparr>,
     w\<lparr>clock := r + period self,
       sleeps := sleeps w @ [r + period self - clock w],
       log := log w @ [\<lparr>levelname = ''INFO'', msg = wait_message, args = [r + period self - clock w]\<rparr>],
       calls := calls w @ [(r + period self, a)]\<rparr>)"
  using assms by (simp add: get_def time_time_def invoke_def time_sleep_def logging_info_def Let_def)

lemma get_nowait:
  assumes "\<not> int (length (requests self)) < count self" "requests self = r # rest"
    "\<not> clock w < r + period self"
  shows "get a (self, w) =
    (Inr (wrapped self a), self\<lparr>requests := rest @ [clock w]\<rparr>,
     w\<lparr>calls := calls w @ [(clock w, a)]\<rparr>)"
  using assms by (simp add: get_def time_time_def invoke_def Let_def)

lemma get_cases [case_names fast empty wait nowait]:
  assumes "int (length (requests self)) < count self \<Longrightarrow> P"
    "\<lbrakk>\<not> int (length (requests self)) < count self; requests self = []\<rbrakk> \<Longrightarrow> P"
    "\<And>r rest. \<lbrakk>\<not> int (length (requests self)) < count self; requests self = r # rest; clock w < r + period self\<rbrakk> \<Longrightarrow> P"
    "\<And>r rest. \<lbrakk>\<not> int (length (requests self)) < count self; requests self = r # rest; \<not> clock w < r + period self\<rbrakk> \<Longrightarrow> P"
  shows P
  using assms by (cases "requests self") blast+

lemma spaced_snoc:
  assumes "spaced c p ts" "0 < c" "c \<le> length ts \<Longrightarrow> ts ! (length ts - c) + p \<le> t"
  shows "spaced c p (ts @ [t])"
  unfolding spaced_def
proof (intro allI impI)
  fix i assume i: "i < length (ts @ [t])" "c \<le> i"
  show "(ts @ [t]) ! (i - c) + p \<le> (ts @ [t]) ! i"
  proof (cases "i < length ts")
    case True
    then have "i - c < length ts" by simp
    with True assms(1) i show ?thesis by (simp add: spaced_def nth_append)
  next
    case False
    with i have il: "i = length ts" by simp
    with assms(2) i have "length ts - c < length ts" by simp
    with il assms(3) i show ?thesis by (simp add: nth_append)
  qed
qed

lemma drop_eq_ConsD:
  assumes "drop k xs = r # rest"
  shows "k < length xs" and "xs ! k = r" and "drop (Suc k) xs = rest"
proof -
  show k: "k < length xs"
  proof (rule ccontr)
    assume "\<not> k < length xs"
    then have "drop k xs = []" by simp
    with assms show False by simp
  qed
  from Cons_nth_drop_Suc [OF k] assms show "xs ! k = r" and "drop (Suc k) xs = rest"
    by simp_all
qed

lemma get_tracking:
  assumes "tracking (self, w)" "get a (self, w) = (res, self', w')"
  shows "tracking (self', w')"
proof -
  let ?adm = "admitted w" and ?c = "nat (count self)"
  from assms(1) have req: "requests self = drop (length ?adm - ?c) ?adm"
    and sp: "spaced ?c (period self) ?adm" and z: "count self \<le> 0 \<longrightarrow> ?adm = []"
    by (simp_all add: tracking_def)
  have "length (requests self) = length ?adm - (length ?adm - ?c)"
    by (subst req) simp
  then have len: "length (requests self) = min (length ?adm) ?c" by linarith
  have slow: "tracking (self\<lparr>requests := rest @ [t]\<rparr>, w'')"
    if full: "\<not> int (length (requests self)) < count self" and rr: "requests self = r # rest"
      and t: "r + period self \<le> t" and w'': "admitted w'' = ?adm @ [t]"
    for r rest t and w'' :: "'a world"
  proof -
    from full rr len have c1: "0 < ?c" "?c \<le> length ?adm" by auto
    from drop_eq_ConsD [OF req [unfolded rr, symmetric]]
    have hd: "?adm ! (length ?adm - ?c) = r" and tl: "drop (Suc (length ?adm - ?c)) ?adm = rest"
      by simp_all
    have "spaced ?c (period self) (?adm @ [t])"
      using sp c1 hd t by (intro spaced_snoc) auto
    moreover have "Suc (length ?adm) - ?c = Suc (length ?adm - ?c)" using c1 by simp
    ultimately show ?thesis using tl c1 w'' by (simp add: tracking_def)
  qed
  show ?thesis
  proof (cases rule: get_cases [of self _ w])
    case fast
    then have lt: "length ?adm < ?c" using len by linarith
    with req have r: "requests self = ?adm" by simp
    have "spaced ?c (period self) (?adm @ [clock w])"
      using lt by (auto simp: spaced_def)
    with fast assms(2) lt r show ?thesis
      by (auto simp: get_fast tracking_def admitted_def)
  next
    case empty
    with assms show ?thesis by (simp add: get_empty)
  next
    case (wait r rest)
    from slow [OF wait(1,2), of "r + period self"] wait assms(2) show ?thesis
      by (auto simp: get_wait admitted_def)
  next
    case (nowait r rest)
    from slow [OF nowait(1,2), of "clock w"] nowait assms(2) show ?thesis
      by (auto simp: get_nowait admitted_def)
  qed
qed

subsection \<open>Sequences of calls\<close>

lemma get_config:
  assumes "get a (self, w) = (res, self', w')"
  shows "count self' = count self \<and> period self' = period self \<and> wrapped self' = wrapped self"
  using assms by (cases rule: get_cases [of self _ w]) (auto simp: get_fast get_empty get_wait get_nowait)

lemma issue_get:
  "issue (d, a) (self, w) = (ob, self', w') \<longleftrightarrow>
     (\<exists>res. get a (self, elapse d w) = (res, self', w') \<and>
            ob = (res, clock w + d, clock w' - (clock w + d)))"
  by (auto simp: issue_def elapse_def Let_def split: prod.splits)

lemma admitted_elapse [simp]: "admitted (elapse d w) = admitted w"
  by (simp add: admitted_def elapse_def)

lemma tracking_elapse [simp]: "tracking (self, elapse d w) = tracking (self, w)"
  by (simp add: tracking_def)

lemma issue_tracking:
  assumes "tracking st" "issue ev st = (ob, st')"
  shows "tracking st'"
proof -
  obtain d a self w self' w' where [simp]: "ev = (d, a)" "st = (self, w)" "st' = (self', w')"
    by (cases ev, cases st, cases st') auto
  from assms show ?thesis by (auto simp: issue_get dest: get_tracking [rotated])
qed

lemma issue_all_tracking:
  assumes "tracking st" "issue_all evs st = (obs, st')"
  shows "tracking st'"
  using assms
proof (induction evs arbitrary: st obs)
  case Nil
  then show ?case by simp
next
  case (Cons ev evs)
  then show ?case by (auto split: prod.splits dest: issue_tracking)
qed

lemma tracking_start: "tracking (start g c p t0)"
  by (simp add: tracking_def start_def init_def world0_def admitted_def spaced_def)

lemma issue_config:
  assumes "issue ev st = (ob, st')"
  shows "count (fst st') = count (fst st) \<and> period (fst st') = period (fst st) \<and>
         wrapped (fst st') = wrapped (fst st)"
proof -
  obtain d a self w self' w' where [simp]: "ev = (d, a)" "st = (self, w)" "st' = (self', w')"
    by (cases ev, cases st, cases st') auto
  from assms show ?thesis by (auto simp: issue_get dest: get_config)
qed

lemma issue_all_config:
  assumes "issue_all evs st = (obs, st')"
  shows "count (fst st') = count (fst st) \<and> period (fst st') = period (fst st) \<and>
         wrapped (fst st') = wrapped (fst st)"
  using assms
proof (induction evs arbitrary: st obs)
  case Nil
  then show ?case by simp
next
  case (Cons ev evs)
  then show ?case by (fastforce split: prod.splits dest: issue_config)
qed




lemma issue_all_eq:
  "issue_all evs st = (observations evs st, limiter_after evs st, world_after evs st)"
  by (simp add: observations_def limiter_after_def world_after_def)

lemma tracking_after:
  "tracking (limiter_after evs (start g c p t0), world_after evs (start g c p t0))"
  using issue_all_tracking [OF tracking_start issue_all_eq] .

lemma config_after:
  "count (limiter_after evs (start g c p t0)) = c"
  "period (limiter_after evs (start g c p t0)) = p"
  "wrapped (limiter_after evs (start g c p t0)) = g"
  using issue_all_config [OF issue_all_eq, of evs "start g c p t0"]
  by (simp_all add: start_def init_def)

lemma requests_after:
  "requests (limiter_after evs (start g c p t0)) =
     drop (length (admitted (world_after evs (start g c p t0))) - nat c)
       (admitted (world_after evs (start g c p t0)))"
  using tracking_after [of evs g c p t0] by (simp add: tracking_def config_after)



lemmas run_simps = observations_def limiter_after_def world_after_def start_def init_def
  world0_def issue_def get_def elapse_def time_time_def time_sleep_def logging_info_def
  invoke_def admitted_def Let_def

subsection \<open>Admission bound\<close>



text \<open>
  The bound is tight at the boundary. A delayed call is admitted at exactly
  \<open>r + period\<close>, so a window that includes both of its end points holds one call more:
  with \<open>count = 3\<close> and \<open>period = 10\<close> the admissions at \<open>0, 0, 0, 10\<close> all lie in
  \<open>0 \<le> t \<le> 10\<close>.
\<close>

lemma closed_window_holds_one_more:
  "length (filter (\<lambda>t. 0 \<le> t \<and> t \<le> 0 + 10)
     (admitted (world_after [(0, ()), (0, ()), (0, ()), (1, ())]
        (start (\<lambda>u. Inr u :: unit + unit) 3 10 0)))) = 4"
  by (simp add: run_simps)

subsection \<open>Delay correctness\<close>



lemma length_requests_after:
  "length (requests (limiter_after evs (start g c p t0))) =
     min (length (calls (world_after evs (start g c p t0)))) (nat c)"
  by (simp add: requests_after admitted_def min_def)

subsection \<open>Pass-through fidelity\<close>

lemma get_passes:
  assumes "1 \<le> count self" "get a (self, w) = (res, self', w')"
  shows "res = Inr (wrapped self a) \<and> calls w' = calls w @ [(clock w', a)]"
  using assms
  by (cases rule: get_cases [of self _ w]) (auto simp: get_fast get_wait get_nowait)

lemma issue_passes:
  assumes "1 \<le> count (fst st)" "issue ev st = (ob, st')"
  shows "fst ob = Inr (wrapped (fst st) (snd ev)) \<and>
         map snd (calls (snd st')) = map snd (calls (snd st)) @ [snd ev]"
proof -
  obtain d a self w self' w' where [simp]: "ev = (d, a)" "st = (self, w)" "st' = (self', w')"
    by (cases ev, cases st, cases st') auto
  from assms obtain res where g: "get a (self, elapse d w) = (res, self', w')"
    and ob: "ob = (res, clock w + d, clock w' - (clock w + d))"
    by (auto simp: issue_get)
  from get_passes [OF _ g] assms(1) ob show ?thesis by (simp add: elapse_def)
qed

lemma issue_all_passes:
  assumes "1 \<le> count (fst st)"
  shows "map fst (observations evs st) = map (\<lambda>ev. Inr (wrapped (fst st) (snd ev))) evs \<and>
         map snd (calls (world_after evs st)) = map snd (calls (snd st)) @ map snd evs"
  using assms
proof (induction evs arbitrary: st)
  case Nil
  then show ?case by (simp add: observations_def world_after_def)
next
  case (Cons ev evs)
  obtain ob st' where i: "issue ev st = (ob, st')" by (cases "issue ev st") auto
  from issue_passes [OF Cons.prems i] issue_config [OF i] Cons.prems
  have 1: "fst ob = Inr (wrapped (fst st) (snd ev))"
    "map snd (calls (snd st')) = map snd (calls (snd st)) @ [snd ev]"
    "1 \<le> count (fst st')" "wrapped (fst st') = wrapped (fst st)"
    by simp_all
  from Cons.IH [OF 1(3)] 1 i show ?case
    by (auto simp: observations_def world_after_def split: prod.splits)
qed

text \<open>
  Claim C4. Under the precondition \<open>1 \<le> count\<close>, every call through \<^verbatim>\<open>get\<close> yields
  exactly what the wrapped operation yields on the same arguments, a returned value and a
  raised exception alike, and the wrapped operation is invoked once per call, with the
  arguments of that call, in the order of the calls.
\<close>

theorem pass_through:
  assumes "1 \<le> c"
  shows "map fst (observations evs (start g c p t0)) = map (\<lambda>ev. Inr (g (snd ev))) evs \<and>
         map snd (calls (world_after evs (start g c p t0))) = map snd evs"
  using issue_all_passes [of "start g c p t0" evs] assms
  by (simp add: start_def init_def world0_def)

theorem pass_through_witness:
  "(1::int) \<le> 3 \<and>
   map fst (observations [(0, 5), (0, 7), (0, 5), (1, 8), (0, 0)]
      (start (\<lambda>n::nat. if n = 0 then Inl ''boom'' else Inr (n + n)) 3 10 0)) =
     [Inr (Inr 10), Inr (Inr 14), Inr (Inr 10), Inr (Inr 16), Inr (Inl ''boom'')] \<and>
   map snd (calls (world_after [(0, 5), (0, 7), (0, 5), (1, 8), (0, 0)]
      (start (\<lambda>n::nat. if n = 0 then Inl ''boom'' else Inr (n + n)) 3 10 0))) = [5, 7, 5, 8, 0]"
  using pass_through [of 3 "[(0, 5), (0, 7), (0, 5), (1, 8), (0, 0)]"
      "\<lambda>n::nat. if n = 0 then Inl ''boom'' else Inr (n + n)" 10 0]
  by simp

subsection \<open>Size of the tracker\<close>

lemma calls_after:
  "1 \<le> c \<Longrightarrow> length (calls (world_after evs (start g c p t0))) = length evs"
  using issue_all_passes [of "start g c p t0" evs, THEN conjunct2, THEN arg_cong, of length]
  by (simp add: start_def init_def world0_def)

text \<open>
  Claim C6. After \<open>n\<close> calls on a fresh limiter with \<open>0 \<le> count\<close> the tracker holds
  \<open>min n count\<close> records: one more per call up to \<open>count\<close>, exactly \<open>count\<close> from then
  on, never more.
\<close>

theorem tracker_size:
  assumes "0 \<le> c"
  shows "int (length (requests (limiter_after evs (start g c p t0)))) = min (int (length evs)) c"
proof (cases "c = 0")
  case True
  then show ?thesis by (simp add: length_requests_after)
next
  case False
  with assms have c: "1 \<le> c" by simp
  then have "length (requests (limiter_after evs (start g c p t0))) = min (length evs) (nat c)"
    by (simp add: length_requests_after calls_after)
  with c show ?thesis by linarith
qed

theorem tracker_size_witness:
  "(0::int) \<le> 3 \<and>
   int (length (requests (limiter_after [(0, ()), (0, ()), (0, ()), (1, ()), (0, ())]
      (start (\<lambda>u. Inr u :: unit + unit) 3 10 0)))) = min (int (length [(0::real, ()), (0, ()), (0, ()), (1, ()), (0, ())])) 3 \<and>
   requests (limiter_after [(0, ()), (0, ()), (0, ()), (1, ()), (0, ())]
      (start (\<lambda>u. Inr u :: unit + unit) 3 10 0)) = [0, 10, 10]"
  using tracker_size [of 3 "[(0, ()), (0, ()), (0, ()), (1, ()), (0, ())]"
      "\<lambda>u. Inr u :: unit + unit" 10 0]
  by (simp add: run_simps)

subsection \<open>No unnecessary delay\<close>

text \<open>
  Claim C3. While fewer than \<open>count\<close> calls have been admitted, the next call, arriving
  after any caller-side delay \<open>d\<close>, is admitted at its arrival time: the imposed delay
  is \<open>0\<close>, the world changes only by the time the caller let pass and the new
  invocation (no sleep, no log record), and the tracker only gains the new record (none is
  retired).
\<close>

theorem no_unnecessary_delay:
  assumes "int (length (calls (world_after evs (start g c p t0)))) < c"
  shows "issue (d, a) (limiter_after evs (start g c p t0), world_after evs (start g c p t0)) =
    ((Inr (g a), clock (world_after evs (start g c p t0)) + d, 0),
     (limiter_after evs (start g c p t0))
       \<lparr>requests := requests (limiter_after evs (start g c p t0)) @
           [clock (world_after evs (start g c p t0)) + d]\<rparr>,
     (world_after evs (start g c p t0))
       \<lparr>clock := clock (world_after evs (start g c p t0)) + d,
        calls := calls (world_after evs (start g c p t0)) @
           [(clock (world_after evs (start g c p t0)) + d, a)]\<rparr>)"
proof -
  let ?L = "limiter_after evs (start g c p t0)" and ?W = "world_after evs (start g c p t0)"
  from assms have "int (length (requests ?L)) < count ?L"
    by (simp add: length_requests_after config_after)
  from get_fast [OF this, of a "elapse d ?W"] show ?thesis
    by (simp add: issue_def elapse_def config_after)
qed

theorem no_unnecessary_delay_witness:
  "int (length (calls (world_after [(0, ()), (2, ())]
      (start (\<lambda>u. Inr u :: unit + unit) 3 10 0)))) < 3 \<and>
   issue (1, ()) (limiter_after [(0, ()), (2, ())] (start (\<lambda>u. Inr u :: unit + unit) 3 10 0),
                 world_after [(0, ()), (2, ())] (start (\<lambda>u. Inr u :: unit + unit) 3 10 0)) =
     ((Inr (Inr ()), 3, 0),
      \<lparr>count = 3, period = 10, requests = [0, 2, 3], wrapped = (\<lambda>u. Inr u :: unit + unit)\<rparr>,
      \<lparr>clock = 3, sleeps = [], log = [], calls = [(0, ()), (2, ()), (3, ())]\<rparr>)"
  using no_unnecessary_delay [of "[(0, ()), (2, ())]" "\<lambda>u. Inr u :: unit + unit" 3 10 0 1 "()"]
  by (simp add: run_simps)

subsection \<open>FIFO retirement\<close>

text \<open>
  Claim C5. After the first \<open>count\<close> admissions (\<open>1 \<le> count\<close>), the tracker is the list
  of the last \<open>count\<close> admission times in the order of admission. The next call, arriving
  after any caller-side delay \<open>d\<close>, retires exactly its head \<open>r\<close>, the oldest of them, and
  appends its own admission time at the back, whether it had to wait or not; whether and
  how long it waits is decided by \<open>r\<close> alone.
\<close>

theorem fifo_retirement:
  assumes "1 \<le> c" "c \<le> int (length evs)"
  shows "\<exists>r rest.
     requests (limiter_after evs (start g c p t0)) = r # rest \<and>
     r # rest = drop (length evs - nat c) (admitted (world_after evs (start g c p t0))) \<and>
     r = admitted (world_after evs (start g c p t0)) ! (length evs - nat c) \<and>
     (case get a (limiter_after evs (start g c p t0),
                  elapse d (world_after evs (start g c p t0))) of
        (res, self', w') \<Rightarrow>
          requests self' = rest @ [time_time w'] \<and>
          time_time w' = max (clock (world_after evs (start g c p t0)) + d) (r + p) \<and>
          sleeps w' = sleeps (world_after evs (start g c p t0)) @
            (if clock (world_after evs (start g c p t0)) + d < r + p
             then [r + p - (clock (world_after evs (start g c p t0)) + d)] else []))"
proof -
  let ?L = "limiter_after evs (start g c p t0)" and ?W = "world_after evs (start g c p t0)"
  let ?k = "length evs - nat c"
  have n: "length (admitted ?W) = length evs"
    using assms(1) by (simp add: admitted_def calls_after)
  have req: "requests ?L = drop ?k (admitted ?W)"
    using requests_after [of evs g c p t0] n by simp
  have k: "?k < length (admitted ?W)" using assms n by linarith
  then have "requests ?L \<noteq> []" using req by simp
  then obtain r rest where rr: "requests ?L = r # rest"
    by (auto simp: neq_Nil_conv)
  have r: "r = admitted ?W ! ?k"
    using rr req k by (metis hd_drop_conv_nth list.sel(1))
  have full: "\<not> int (length (requests ?L)) < count ?L"
    using assms n by (simp add: req config_after)
  have "case get a (?L, elapse d ?W) of
        (res, self', w') \<Rightarrow>
          requests self' = rest @ [time_time w'] \<and>
          time_time w' = max (clock ?W + d) (r + p) \<and>
          sleeps w' = sleeps ?W @ (if clock ?W + d < r + p then [r + p - (clock ?W + d)] else [])"
  proof (cases "clock (elapse d ?W) < r + period ?L")
    case True
    from get_wait [OF full rr True] True show ?thesis
      by (simp add: config_after elapse_def time_time_def)
  next
    case False
    from get_nowait [OF full rr False] False show ?thesis
      by (simp add: config_after elapse_def time_time_def)
  qed
  with rr r req show ?thesis by auto
qed

theorem fifo_retirement_witness:
  "(1::int) \<le> 2 \<and> 2 \<le> int (length [(0::real, ()), (1, ()), (4, ())]) \<and>
   requests (limiter_after [(0, ()), (1, ()), (4, ())] (start (\<lambda>u. Inr u :: unit + unit) 2 10 0))
     = [1, 10] \<and>
   (\<exists>r rest.
     r # rest = [1, 10] \<and>
     (case get () (limiter_after [(0, ()), (1, ()), (4, ())] (start (\<lambda>u. Inr u :: unit + unit) 2 10 0),
                  elapse 5 (world_after [(0, ()), (1, ()), (4, ())] (start (\<lambda>u. Inr u :: unit + unit) 2 10 0))) of
        (res, self', w') \<Rightarrow>
          requests self' = rest @ [time_time w'] \<and>
          time_time w' = max 15 (r + 10)))"
  using fifo_retirement [where c = 2 and evs = "[(0, ()), (1, ()), (4, ())]"
      and g = "\<lambda>u. Inr u :: unit + unit" and p = 10 and ?t0.0 = 0 and a = "()" and d = 5]
  by (simp add: run_simps)

subsection \<open>Determinism of the delay schedule\<close>

lemma get_timing:
  assumes "count s1 = count s2" "period s1 = period s2" "requests s1 = requests s2"
    "clock w1 = clock w2" "sleeps w1 = sleeps w2"
  shows "count (fst (snd (get a (s1, w1)))) = count (fst (snd (get b (s2, w2)))) \<and>
         period (fst (snd (get a (s1, w1)))) = period (fst (snd (get b (s2, w2)))) \<and>
         requests (fst (snd (get a (s1, w1)))) = requests (fst (snd (get b (s2, w2)))) \<and>
         clock (snd (snd (get a (s1, w1)))) = clock (snd (snd (get b (s2, w2)))) \<and>
         sleeps (snd (snd (get a (s1, w1)))) = sleeps (snd (snd (get b (s2, w2))))"
proof (cases rule: get_cases [of s1 _ w1])
  case fast
  moreover from fast assms have "int (length (requests s2)) < count s2" by simp
  ultimately show ?thesis using assms by (simp add: get_fast)
next
  case empty
  moreover from empty assms have "\<not> int (length (requests s2)) < count s2" "requests s2 = []"
    by simp_all
  ultimately show ?thesis using assms by (simp add: get_empty)
next
  case (wait r rest)
  moreover from wait assms have "\<not> int (length (requests s2)) < count s2"
    "requests s2 = r # rest" "clock w2 < r + period s2"
    by simp_all
  ultimately show ?thesis using assms by (simp add: get_wait)
next
  case (nowait r rest)
  moreover from nowait assms have "\<not> int (length (requests s2)) < count s2"
    "requests s2 = r # rest" "\<not> clock w2 < r + period s2"
    by simp_all
  ultimately show ?thesis using assms by (simp add: get_nowait)
qed

lemma issue_timing:
  assumes "count (fst st1) = count (fst st2)" "period (fst st1) = period (fst st2)"
    "requests (fst st1) = requests (fst st2)"
    "clock (snd st1) = clock (snd st2)" "sleeps (snd st1) = sleeps (snd st2)"
    "fst ev1 = fst ev2"
  shows "snd (fst (issue ev1 st1)) = snd (fst (issue ev2 st2)) \<and>
         count (fst (snd (issue ev1 st1))) = count (fst (snd (issue ev2 st2))) \<and>
         period (fst (snd (issue ev1 st1))) = period (fst (snd (issue ev2 st2))) \<and>
         requests (fst (snd (issue ev1 st1))) = requests (fst (snd (issue ev2 st2))) \<and>
         clock (snd (snd (issue ev1 st1))) = clock (snd (snd (issue ev2 st2))) \<and>
         sleeps (snd (snd (issue ev1 st1))) = sleeps (snd (snd (issue ev2 st2)))"
proof -
  obtain d a b s1 w1 s2 w2 where [simp]: "ev1 = (d, a)" "ev2 = (d, b)" "st1 = (s1, w1)"
    "st2 = (s2, w2)"
    using assms(6) by (cases ev1, cases ev2, cases st1, cases st2) auto
  have "clock (elapse d w1) = clock (elapse d w2)" "sleeps (elapse d w1) = sleeps (elapse d w2)"
    using assms by (simp_all add: elapse_def)
  from get_timing [OF _ _ _ this, of s1 s2 a b] assms show ?thesis
    by (simp add: issue_def elapse_def case_prod_beta Let_def)
qed

lemma issue_all_timing:
  assumes "map fst evs1 = map fst evs2"
    "count (fst st1) = count (fst st2)" "period (fst st1) = period (fst st2)"
    "requests (fst st1) = requests (fst st2)"
    "clock (snd st1) = clock (snd st2)" "sleeps (snd st1) = sleeps (snd st2)"
  shows "map snd (observations evs1 st1) = map snd (observations evs2 st2) \<and>
         sleeps (world_after evs1 st1) = sleeps (world_after evs2 st2)"
  using assms
proof (induction evs1 arbitrary: evs2 st1 st2)
  case Nil
  then show ?case by (simp add: observations_def world_after_def)
next
  case (Cons ev1 evs1)
  then obtain ev2 evs2' where e: "evs2 = ev2 # evs2'" "fst ev1 = fst ev2"
    "map fst evs1 = map fst evs2'"
    by (cases evs2) auto
  note t = issue_timing [OF Cons.prems(2-6) e(2)]
  have "map snd (observations evs1 (snd (issue ev1 st1))) =
          map snd (observations evs2' (snd (issue ev2 st2))) \<and>
        sleeps (world_after evs1 (snd (issue ev1 st1))) =
          sleeps (world_after evs2' (snd (issue ev2 st2)))"
    by (rule Cons.IH [OF e(3)]) (simp_all add: t)
  with t e(1) show ?case
    by (simp add: observations_def world_after_def case_prod_beta)
qed

text \<open>
  Claim C7. Two limiters built with the same \<open>count\<close> and \<open>period\<close>, started at the same
  time and fed calls with the same caller-side delays, have the same arrival times, the
  same imposed delays and the same sleeps, call by call, whatever the two wrapped
  operations and the arguments of the calls are: the schedule depends on \<open>count\<close>,
  \<open>period\<close> and the timing alone.
\<close>

theorem deterministic_schedule:
  assumes "map fst evs1 = map fst evs2"
  shows "map snd (observations evs1 (start g c p t0)) =
           map snd (observations evs2 (start h c p t0)) \<and>
         sleeps (world_after evs1 (start g c p t0)) =
           sleeps (world_after evs2 (start h c p t0))"
  by (rule issue_all_timing [OF assms]) (simp_all add: start_def init_def world0_def)

theorem deterministic_schedule_witness:
  "map fst [(0::real, ()), (0, ()), (3, ())] = map fst [(0::real, True), (0, False), (3, True)] \<and>
   map snd (observations [(0, ()), (0, ()), (3, ())] (start (\<lambda>u. Inr u :: unit + unit) 2 10 0)) =
     map snd (observations [(0, True), (0, False), (3, True)]
       (start (\<lambda>b. if b then Inl (0::nat) else Inr ''ok'') 2 10 0)) \<and>
   sleeps (world_after [(0, True), (0, False), (3, True)]
       (start (\<lambda>b. if b then Inl (0::nat) else Inr ''ok'') 2 10 0)) = [7]"
  using deterministic_schedule [where ?evs1.0 = "[(0, ()), (0, ()), (3, ())]"
      and ?evs2.0 = "[(0, True), (0, False), (3, True)]"
      and g = "\<lambda>u. Inr u :: unit + unit"
      and h = "\<lambda>b. if b then Inl (0::nat) else Inr ''ok''" and c = 2 and p = 10 and ?t0.0 = 0]
  by (simp add: run_simps)

subsection \<open>The log record of an imposed delay\<close>

text \<open>
  Claim C8, as the specification words it, fails on the message: the one call that is
  delayed in the run below logs a record whose message is not of the specification's form
  (it begins \<^verbatim>\<open>Waiting\<close>, and ends \<^verbatim>\<open>so as to not go over the API rate limit\<close>).
\<close>

theorem log_form_counterexample:
  "map (spec_log_form \<circ> msg)
     (log (world_after [(0, ()), (0, ()), (0, ()), (1, ())]
        (start (\<lambda>u. Inr u :: unit + unit) 3 10 0))) = [False]"
  by (simp add: run_simps wait_message_def spec_log_form_def spec_log_prefix_def
      spec_log_suffix_def)

text \<open>
  Claim C8, amended. A call through \<^verbatim>\<open>get\<close> emits one log record exactly when it imposes a
  delay, that is when the tracker is at capacity and \<open>now < r + period\<close> for its oldest
  record \<open>r\<close>; the record has level \<^verbatim>\<open>INFO\<close>, the message
  \<^verbatim>\<open>Waiting %.3fs so as to not go over the API rate limit\<close> and the delay
  \<open>r + period - now\<close> as its argument, and the call sleeps for that delay. A call that is
  not delayed emits nothing and does not sleep.
\<close>

theorem log_on_delay:
  "log (snd (snd (get a (self, w)))) = log w @
     (if \<not> int (length (requests self)) < count self \<and> requests self \<noteq> [] \<and>
         time_time w < hd (requests self) + period self
      then [\<lparr>levelname = ''INFO'',
             msg = ''Waiting %.3fs so as to not go over the API rate limit'',
             args = [hd (requests self) + period self - time_time w]\<rparr>]
      else []) \<and>
   sleeps (snd (snd (get a (self, w)))) = sleeps w @
     (if \<not> int (length (requests self)) < count self \<and> requests self \<noteq> [] \<and>
         time_time w < hd (requests self) + period self
      then [hd (requests self) + period self - time_time w]
      else [])"
  by (cases rule: get_cases [of self _ w])
    (simp_all add: get_fast get_empty get_wait get_nowait time_time_def wait_message_def)

subsection \<open>The empty tracker\<close>

text \<open>
  Claim C9. Constructing a limiter with \<open>count \<le> 0\<close> succeeds (its tracker is empty), and
  the first call to \<^verbatim>\<open>get\<close> fails with the \<^verbatim>\<open>IndexError\<close> of removing from the empty
  tracker, before the wrapped operation is invoked and leaving the limiter as it was.
  With \<open>1 \<le> count\<close> no call of any sequence fails so: the tracker never holds more than
  \<open>count\<close> records, so a removal finds exactly \<open>count\<close> of them, and the next call does not
  fail either.
\<close>

theorem empty_tracker_error:
  "(c \<le> 0 \<longrightarrow>
      requests (init g c p) = [] \<and>
      get a (init g c p, w) = (Inl IndexError, init g c p, w)) \<and>
   (1 \<le> c \<longrightarrow>
      Inl IndexError \<notin> fst ` set (observations evs (start g c p t0)) \<and>
      int (length (requests (limiter_after evs (start g c p t0)))) \<le> c \<and>
      (\<not> int (length (requests (limiter_after evs (start g c p t0)))) < c \<longrightarrow>
         int (length (requests (limiter_after evs (start g c p t0)))) = c) \<and>
      fst (get a (limiter_after evs (start g c p t0), w)) \<noteq> Inl IndexError)"
proof (intro conjI impI)
  assume c: "c \<le> 0"
  show "requests (init g c p) = []" by (simp add: init_def)
  from c show "get a (init g c p, w) = (Inl IndexError, init g c p, w)"
    by (intro get_empty) (simp_all add: init_def)
next
  assume c: "1 \<le> c"
  let ?L = "limiter_after evs (start g c p t0)"
  have "set (map fst (observations evs (start g c p t0))) \<subseteq> range Inr"
    using issue_all_passes [of "start g c p t0" evs] c
    by (auto simp: start_def init_def)
  then show "Inl IndexError \<notin> fst ` set (observations evs (start g c p t0))" by auto
  show le: "int (length (requests ?L)) \<le> c"
    using c by (simp add: length_requests_after)
  then show "int (length (requests ?L)) = c" if "\<not> int (length (requests ?L)) < c"
    using that by simp
  obtain res self' w' where g: "get a (?L, w) = (res, self', w')"
    by (cases "get a (?L, w)") auto
  from get_passes [OF _ g] c show "fst (get a (?L, w)) \<noteq> Inl IndexError"
    by (simp add: g config_after)
qed

theorem empty_tracker_error_witness:
  "(0::int) \<le> 0 \<and>
   get () (init (\<lambda>u. Inr u :: unit + unit) 0 10, world0 0) =
     (Inl IndexError, init (\<lambda>u. Inr u :: unit + unit) 0 10, world0 0) \<and>
   (1::int) \<le> 1 \<and>
   Inl IndexError \<notin> fst ` set (observations [(0, ()), (0, ())] (start (\<lambda>u. Inr u :: unit + unit) 1 10 0)) \<and>
   \<not> int (length (requests (limiter_after [(0, ()), (0, ())] (start (\<lambda>u. Inr u :: unit + unit) 1 10 0)))) < 1 \<and>
   int (length (requests (limiter_after [(0, ()), (0, ())] (start (\<lambda>u. Inr u :: unit + unit) 1 10 0)))) = 1"
  using empty_tracker_error [where c = 0 and g = "\<lambda>u. Inr u :: unit + unit" and p = 10
      and a = "()" and w = "world0 0" and evs = "[]" and ?t0.0 = 0]
    empty_tracker_error [where c = 1 and g = "\<lambda>u. Inr u :: unit + unit" and p = 10
      and a = "()" and w = "world0 0" and evs = "[(0, ()), (0, ())]" and ?t0.0 = 0]
  by (simp add: run_simps)

subsection \<open>Order of the tracked timestamps\<close>

lemma get_sorted:
  assumes "sorted (requests self)" "\<forall>t\<in>set (requests self). t \<le> clock w"
    "get a (self, w) = (res, self', w')"
  shows "sorted (requests self') \<and> (\<forall>t\<in>set (requests self'). t \<le> clock w')"
  using assms(3)
proof (cases rule: get_cases [of self _ w])
  case fast
  with assms show ?thesis by (auto simp: get_fast sorted_append)
next
  case empty
  with assms show ?thesis by (auto simp: get_empty)
next
  case (wait r rest)
  with assms show ?thesis by (fastforce simp: get_wait sorted_append)
next
  case (nowait r rest)
  with assms show ?thesis by (auto simp: get_nowait sorted_append)
qed

lemma issue_sorted:
  assumes "sorted (requests (fst st))" "\<forall>t\<in>set (requests (fst st)). t \<le> clock (snd st)"
    "0 \<le> fst ev"
  shows "sorted (requests (fst (snd (issue ev st)))) \<and>
         (\<forall>t\<in>set (requests (fst (snd (issue ev st)))). t \<le> clock (snd (snd (issue ev st))))"
proof -
  obtain d a self w where [simp]: "ev = (d, a)" "st = (self, w)"
    by (cases ev, cases st) auto
  obtain res self' w' where g: "get a (self, elapse d w) = (res, self', w')"
    by (cases "get a (self, elapse d w)") auto
  have "\<forall>t\<in>set (requests self). t \<le> clock (elapse d w)"
    using assms(2,3) by (auto simp: elapse_def intro: order_trans)
  from get_sorted [OF _ this g] assms(1) g show ?thesis
    by (simp add: issue_def Let_def)
qed

text \<open>
  Claim C10. With a time source that never goes back (caller-side delays \<open>0 \<le> d\<close>; the
  limiter's own sleeps are positive), a tracker whose timestamps are in non-decreasing
  order, oldest first, and not in the future, stays so through every sequence of calls
  to \<^verbatim>\<open>get\<close>. The tracker of a fresh limiter is empty, so it is always so ordered.
\<close>

theorem requests_sorted:
  assumes "sorted (requests self)" "\<forall>t\<in>set (requests self). t \<le> clock w"
    "\<forall>ev\<in>set evs. 0 \<le> fst ev"
  shows "sorted (requests (limiter_after evs (self, w))) \<and>
         (\<forall>t\<in>set (requests (limiter_after evs (self, w))). t \<le> clock (world_after evs (self, w)))"
  using assms
proof (induction evs arbitrary: self w)
  case Nil
  then show ?case by (simp add: limiter_after_def world_after_def)
next
  case (Cons ev evs)
  obtain ob self' w' where i: "issue ev (self, w) = (ob, self', w')"
    by (cases "issue ev (self, w)") auto
  from issue_sorted [of "(self, w)" ev] Cons.prems i
  have "sorted (requests self')" "\<forall>t\<in>set (requests self'). t \<le> clock w'" by simp_all
  from Cons.IH [OF this] Cons.prems(3) i show ?case
    by (simp add: limiter_after_def world_after_def case_prod_beta)
qed

theorem requests_sorted_witness:
  "sorted (requests (init (\<lambda>u. Inr u :: unit + unit) 2 10)) \<and>
   set (requests (init (\<lambda>u. Inr u :: unit + unit) 2 10)) = {} \<and>
   map fst [(0::real, ()), (1, ()), (4, ())] = [0, 1, 4] \<and>
   sorted (requests (limiter_after [(0, ()), (1, ()), (4, ())]
      (init (\<lambda>u. Inr u :: unit + unit) 2 10, world0 0))) \<and>
   requests (limiter_after [(0, ()), (1, ()), (4, ())]
      (init (\<lambda>u. Inr u :: unit + unit) 2 10, world0 0)) = [1, 10]"
  using requests_sorted [where self = "init (\<lambda>u. Inr u :: unit + unit) 2 10"
      and w = "world0 0" and evs = "[(0, ()), (1, ()), (4, ())]"]
  by (simp add: run_simps)

end
